theory Spec2Isabelle
  imports Main "HOL-Library.Multiset"
begin

section \<open>The Vec toolkit (vec.h)\<close>

text \<open>
  The header offers five templates over \<open>std::vector\<close>: \<open>sort_indices\<close>, \<open>reorder\<close>,
  \<open>reorder_destructive\<close>, \<open>remove_intersection\<close> and \<open>RemoveDuplicates\<close>. A vector is a
  list. An access \<open>v[k]\<close> with \<open>k\<close> outside the vector is undefined behaviour in C++; the
  embedding makes it the error value \<open>Out_Of_Range\<close>. A loop that may spin forever is a
  \<open>partial_function\<close> over \<open>option\<close>: the value \<open>None\<close> stands for "does not return".
\<close>

datatype error = Out_Of_Range

subsection \<open>sort_indices\<close>

text \<open>
  \<open>std::iota\<close> fills \<open>idx\<close> with \<open>0, 1, ..., v.size() - 1\<close>; \<open>std::stable_sort\<close> then sorts
  the indices by the comparator \<open>v[i1] < v[i2]\<close>. The standard library's stable sort is
  represented by \<open>sort_key\<close>, the stable insertion sort of the HOL library, with the key
  \<open>\<lambda>i. v ! i\<close>; every index handed to the comparator comes from \<open>idx\<close> and is in range.
\<close>

definition sort_indices :: "('a::linorder) list \<Rightarrow> nat list" where
  "sort_indices v = sort_key (\<lambda>i. v ! i) [0..<length v]"

subsection \<open>reorder\<close>

text \<open>
  The state of \<open>reorder\<close>: the two vectors passed by reference and the local marker
  vector \<open>done\<close> (a keyword of Isabelle, hence the prefix on the field names).
\<close>

record 'a rstate =
  r_v :: "'a list"
  r_order :: "nat list"
  r_done :: "bool list"

text \<open>\<open>std::swap(v[a], v[b])\<close>.\<close>

definition swap_at :: "nat \<Rightarrow> nat \<Rightarrow> 'a list \<Rightarrow> 'a list" where
  "swap_at a b xs = (xs[a := xs ! b])[b := xs ! a]"

text \<open>
  The loop \<open>while (i != j)\<close> of lines 53 to 59, entered with \<open>prev_j\<close> and \<open>j\<close>. Nothing in
  the source bounds the number of rounds.
\<close>

partial_function (option) reorder_while ::
  "nat \<Rightarrow> nat \<Rightarrow> nat \<Rightarrow> 'a rstate \<Rightarrow> (error + 'a rstate) option" where
  "reorder_while i prev_j j st =
     (if i \<noteq> j then
        (if prev_j < length (r_v st) \<and> j < length (r_v st) \<and> j < length (r_done st)
            \<and> j < length (r_order st)
         then reorder_while i j (r_order st ! j)
                (st\<lparr>r_v := swap_at prev_j j (r_v st), r_done := (r_done st)[j := True]\<rparr>)
         else Some (Inl Out_Of_Range))
      else Some (Inr st))"

text \<open>The loop \<open>for (i = 0; i < v.size(); ++i)\<close> of lines 44 to 60, from index \<open>i\<close> on.\<close>

partial_function (option) reorder_for ::
  "nat \<Rightarrow> 'a rstate \<Rightarrow> (error + 'a rstate) option" where
  "reorder_for i st =
     (if i < length (r_v st) then
        (if \<not> i < length (r_done st) then Some (Inl Out_Of_Range)
         else if r_done st ! i then reorder_for (i + 1) st
         else if \<not> i < length (r_order st) then Some (Inl Out_Of_Range)
         else Option.bind
                (reorder_while i i (r_order st ! i) (st\<lparr>r_done := (r_done st)[i := True]\<rparr>))
                (\<lambda>r. if isl r then Some r else reorder_for (i + 1) (projr r)))
      else Some (Inr st))"

text \<open>
  \<open>reorder(v, order)\<close>: the result is the state on return, whose fields \<open>r_v\<close> and
  \<open>r_order\<close> are what the caller finds in the two vectors.
\<close>

definition reorder :: "'a list \<Rightarrow> nat list \<Rightarrow> (error + 'a rstate) option" where
  "reorder v order =
     reorder_for 0 \<lparr>r_v = v, r_order = order, r_done = replicate (length v) False\<rparr>"

subsection \<open>reorder_destructive\<close>

text \<open>
  The template is generic in the iterator types. The embedding takes the index type
  \<open>index_t\<close> to be an integer type holding \<open>-1\<close>, the value the source writes into consumed
  entries, so the order buffer is an \<open>int list\<close>; the scan position \<open>s\<close> only counts up
  from \<open>index_t()\<close>, which is 0, and is a natural number. For an order vector of
  \<open>size_t\<close> the value \<open>(diff_t) -1\<close> is stored and compared as the largest \<open>size_t\<close>,
  which is no position of a vector; it is shown as \<open>-1\<close> here, and an entry that is not a
  position of the vectors is out of range either way. The counter \<open>remaining\<close> has the
  signed type \<open>diff_t\<close>; it runs from \<open>n - 1\<close> down to \<open>-1\<close> at most. The value iterator \<open>v\<close>
  is given as the vector it points into.
\<close>

record 'a dstate =
  d_v :: "'a list"
  d_order :: "int list"
  d_remaining :: int

text \<open>
  The inner loop \<open>for (index_t d2; d != s; d = d2)\<close> of lines 82 to 86. The statement
  \<open>std::swap(order_begin[d], d2 = (diff_t) -1)\<close> leaves \<open>-1\<close> in \<open>order_begin[d]\<close> and the
  former entry in \<open>d2\<close>; \<open>std::swap(temp, v[d])\<close> exchanges \<open>temp\<close> and \<open>v[d]\<close>. The local
  \<open>temp\<close> is returned with the state.
\<close>

partial_function (option) reorder_destructive_walk ::
  "nat \<Rightarrow> int \<Rightarrow> 'a \<Rightarrow> 'a dstate \<Rightarrow> (error + 'a \<times> 'a dstate) option" where
  "reorder_destructive_walk s d temp st =
     (if d \<noteq> int s then
        (if 0 \<le> d \<and> nat d < length (d_v st) \<and> nat d < length (d_order st)
         then reorder_destructive_walk s (d_order st ! nat d) (d_v st ! nat d)
                (st\<lparr>d_v := (d_v st)[nat d := temp],
                    d_order := (d_order st)[nat d := - 1],
                    d_remaining := d_remaining st - 1\<rparr>)
         else Some (Inl Out_Of_Range))
      else Some (Inr (temp, st)))"

text \<open>The outer loop \<open>for (index_t s = index_t(); remaining > 0; ++s)\<close> of lines 77 to 88.\<close>

partial_function (option) reorder_destructive_for ::
  "nat \<Rightarrow> 'a dstate \<Rightarrow> (error + 'a dstate) option" where
  "reorder_destructive_for s st =
     (if d_remaining st > 0 then
        (if \<not> s < length (d_order st) then Some (Inl Out_Of_Range)
         else if d_order st ! s = - 1 then reorder_destructive_for (s + 1) st
         else if \<not> s < length (d_v st) then Some (Inl Out_Of_Range)
         else Option.bind
                (reorder_destructive_walk s (d_order st ! s) (d_v st ! s)
                   (st\<lparr>d_remaining := d_remaining st - 1\<rparr>))
                (\<lambda>r. if isl r then Some (Inl (projl r))
                     else reorder_destructive_for (s + 1)
                            ((snd (projr r))\<lparr>d_v := (d_v (snd (projr r)))[s := fst (projr r)]\<rparr>)))
      else Some (Inr st))"

text \<open>
  \<open>reorder_destructive(order.begin(), order.end(), v.begin())\<close>: \<open>remaining\<close> starts at
  \<open>order_end - 1 - order_begin\<close>.
\<close>

definition reorder_destructive :: "int list \<Rightarrow> 'a list \<Rightarrow> (error + 'a dstate) option" where
  "reorder_destructive order v =
     reorder_destructive_for 0 \<lparr>d_v = v, d_order = order, d_remaining = int (length order) - 1\<rparr>"

subsection \<open>remove_intersection\<close>

text \<open>
  The multiset \<open>st\<close> is declared \<open>std::unordered_multiset<int>\<close> and the predicate takes a
  \<open>const int&\<close>, whatever \<open>T\<close> is: every element of \<open>a\<close> and \<open>b\<close> is converted to \<open>int\<close>
  when it is inserted and when it is tested. The conversion from \<open>T\<close> to \<open>int\<close> is the
  parameter \<open>to_int\<close>: the identity for \<open>std::vector<int>\<close>, the narrowing of the platform
  for a wider type. The predicate \<open>st.count(k) > 1\<close> selects what \<open>remove_if\<close> and \<open>erase\<close>
  take out of \<open>a\<close>. The result is the pair of the two vectors on return.
\<close>

definition remove_intersection :: "('a \<Rightarrow> int) \<Rightarrow> 'a list \<Rightarrow> 'a list \<Rightarrow> 'a list \<times> 'a list" where
  "remove_intersection to_int a b =
     (let st = mset (map to_int a) + mset (map to_int b)
      in (filter (\<lambda>k. \<not> count st (to_int k) > 1) a, b))"

subsection \<open>RemoveDuplicates\<close>

text \<open>
  \<open>std::remove_if\<close> calls the predicate once on each element, first to last, and keeps the
  elements on which it answers false, in their order; the predicate carries the set
  \<open>seen\<close> from one call to the next.
\<close>

fun remove_if_seen :: "'a set \<Rightarrow> 'a list \<Rightarrow> 'a list" where
  "remove_if_seen seen [] = []"
| "remove_if_seen seen (x # xs) =
     (if x \<in> seen then remove_if_seen seen xs
      else x # remove_if_seen (insert x seen) xs)"

text \<open>The result is the vector on return and the returned \<open>v.size()\<close>.\<close>

definition RemoveDuplicates :: "'a list \<Rightarrow> 'a list \<times> nat" where
  "RemoveDuplicates v = (let v' = remove_if_seen {} v in (v', length v'))"

section \<open>Specification vocabulary\<close>

text \<open>
  A permutation of \<open>[0, n)\<close> in the sense of the specification: \<open>n\<close> indices, all below
  \<open>n\<close>, no index twice.
\<close>

definition valid_permutation :: "nat \<Rightarrow> nat list \<Rightarrow> bool" where
  "valid_permutation n p \<longleftrightarrow> length p = n \<and> distinct p \<and> list_all (\<lambda>j. j < n) p"

text \<open>
  The cycle of position \<open>k\<close> under \<open>p\<close> is \<open>k, p[k], p[p[k]], ...\<close>; \<open>k\<close> is the least
  position of its cycle when no iterate falls below it.
\<close>

definition cycle_least :: "nat list \<Rightarrow> nat \<Rightarrow> bool" where
  "cycle_least p k \<longleftrightarrow> (\<forall>m. k \<le> ((\<lambda>x. p ! x) ^^ m) k)"

subsection \<open>Loop invariants of reorder_destructive\<close>

text \<open>
  While the inner loop walks the cycle entered at \<open>s\<close>: \<open>D0\<close> holds the positions of the
  cycles finished before, \<open>N\<close> the positions of the current cycle reached so far and \<open>c\<close>
  the last of them, whose original value \<open>temp\<close> carries; \<open>o0\<close> is the order buffer at
  entry, \<open>v0\<close> the value vector at the call.
\<close>

definition walk_inv ::
  "nat \<Rightarrow> nat list \<Rightarrow> 'a list \<Rightarrow> int list \<Rightarrow> nat \<Rightarrow> nat set \<Rightarrow> nat set \<Rightarrow> nat \<Rightarrow> 'a list \<Rightarrow> int list \<Rightarrow> bool" where
  "walk_inv n p v0 o0 s D0 N c vc oc \<longleftrightarrow>
     length vc = n \<and> length oc = n \<and> D0 \<subseteq> {..<n} \<and> N \<subseteq> {..<n} \<and> D0 \<inter> N = {}
     \<and> s \<in> N \<and> c \<in> N
     \<and> (\<lambda>k. p ! k) ` D0 = D0
     \<and> (\<lambda>k. p ! k) ` (N - {c}) = N - {s}
     \<and> (\<forall>k\<in>N. \<exists>m. ((\<lambda>x. p ! x) ^^ m) k = c)
     \<and> (\<forall>k\<in>N. k \<noteq> s \<longrightarrow> oc ! k = - 1)
     \<and> oc ! s = int (p ! s)
     \<and> (\<forall>k\<in>D0. oc ! k = o0 ! k)
     \<and> (\<forall>k\<in>D0. vc ! (p ! k) = v0 ! k)
     \<and> (\<forall>k\<in>N. k \<noteq> c \<longrightarrow> vc ! (p ! k) = v0 ! k)
     \<and> (\<forall>k<n. k \<notin> D0 \<longrightarrow> k \<notin> N \<longrightarrow> vc ! k = v0 ! k \<and> oc ! k = int (p ! k))"

text \<open>
  At the head of the outer loop: \<open>D\<close> is a union of whole cycles containing every
  position below \<open>s\<close>; each of its values has reached its destination, and among its
  order entries only the least position of a cycle keeps its index.
\<close>

definition scan_inv ::
  "nat \<Rightarrow> nat list \<Rightarrow> 'a list \<Rightarrow> nat \<Rightarrow> nat set \<Rightarrow> 'a list \<Rightarrow> int list \<Rightarrow> bool" where
  "scan_inv n p v0 s D vc oc \<longleftrightarrow>
     length vc = n \<and> length oc = n \<and> D \<subseteq> {..<n}
     \<and> (\<forall>k<n. k < s \<longrightarrow> k \<in> D)
     \<and> (\<lambda>k. p ! k) ` D = D
     \<and> (\<forall>k\<in>D. vc ! (p ! k) = v0 ! k)
     \<and> (\<forall>k<n. k \<notin> D \<longrightarrow> vc ! k = v0 ! k \<and> oc ! k = int (p ! k))
     \<and> (\<forall>k\<in>D. oc ! k = (if cycle_least p k then int (p ! k) else - 1))
     \<and> (\<forall>k\<in>D. s \<le> k \<longrightarrow> oc ! k = - 1)"

section \<open>Permutations\<close>

lemma perm_nth_less: "valid_permutation n p \<Longrightarrow> k < n \<Longrightarrow> p ! k < n"
  by (simp add: valid_permutation_def list_all_length)

lemma perm_inj: "valid_permutation n p \<Longrightarrow> a < n \<Longrightarrow> b < n \<Longrightarrow> p ! a = p ! b \<Longrightarrow> a = b"
  by (simp add: valid_permutation_def nth_eq_iff_index_eq)

lemma perm_set: 
  assumes "valid_permutation n p" shows "set p = {0..<n}"
proof -
  from assms have "set p \<subseteq> {0..<n}" by (auto simp: valid_permutation_def list_all_iff)
  moreover from assms have "card (set p) = card {0..<n}" by (simp add: valid_permutation_def distinct_card)
  ultimately show ?thesis by (simp add: card_subset_eq)
qed

lemma perm_mset: 
  assumes "valid_permutation n p" shows "mset p = mset [0..<n]"
proof -
  from assms have "distinct p" by (simp add: valid_permutation_def)
  then have "mset p = mset_set (set p)" by (simp add: mset_set_set)
  also have "\<dots> = mset_set {0..<n}" using perm_set[OF assms] by simp
  also have "\<dots> = mset [0..<n]" by simp
  finally show ?thesis .
qed

section \<open>reorder gathers along the cycles\<close>

lemma reorder_while_gather:
  assumes vp: "valid_permutation n p"
    and len: "length vc = n" "length dn = n"
    and i: "i < n" and di: "dn ! i" and c: "c < n" and dc: "dn ! c"
    and fr: "(\<lambda>k. p ! k) ` ({k. k < n \<and> dn ! k} - {c}) = {k. k < n \<and> dn ! k} - {i}"
    and vd: "\<forall>k<n. dn ! k \<and> k \<noteq> c \<longrightarrow> vc ! k = v0 ! (p ! k)"
    and vcc: "vc ! c = v0 ! i"
    and vu: "\<forall>k<n. \<not> dn ! k \<longrightarrow> vc ! k = v0 ! k"
  shows "\<exists>v' dn'. reorder_while i c (p ! c) \<lparr>r_v = vc, r_order = p, r_done = dn\<rparr>
            = Some (Inr \<lparr>r_v = v', r_order = p, r_done = dn'\<rparr>)
          \<and> length v' = n \<and> length dn' = n
          \<and> (\<forall>k<n. dn ! k \<longrightarrow> dn' ! k)
          \<and> (\<lambda>k. p ! k) ` {k. k < n \<and> dn' ! k} = {k. k < n \<and> dn' ! k}
          \<and> (\<forall>k<n. dn' ! k \<longrightarrow> v' ! k = v0 ! (p ! k))
          \<and> (\<forall>k<n. \<not> dn' ! k \<longrightarrow> v' ! k = v0 ! k)"
  using len di c dc fr vd vcc vu
proof (induction "card {k. k < n \<and> \<not> dn ! k}" arbitrary: vc dn c rule: less_induct)
  case less
  let ?D = "{k. k < n \<and> dn ! k}"
  note lv = less.prems(1) and ld = less.prems(2) and di = less.prems(3)
    and c = less.prems(4) and dc = less.prems(5) and fr = less.prems(6)
    and vd = less.prems(7) and vcc = less.prems(8) and vu = less.prems(9)
  have lp: "length p = n" using vp by (simp add: valid_permutation_def)
  show ?case
  proof (cases "p ! c = i")
    case True
    have cl: "(\<lambda>k. p ! k) ` ?D = ?D"
    proof -
      have "?D = insert c (?D - {c})" using c dc by auto
      then have "(\<lambda>k. p ! k) ` ?D = insert (p ! c) ((\<lambda>k. p ! k) ` (?D - {c}))"
        by (metis image_insert)
      also have "\<dots> = insert i (?D - {i})" using fr True by simp
      also have "\<dots> = ?D" using i di by auto
      finally show ?thesis .
    qed
    have "reorder_while i c (p ! c) \<lparr>r_v = vc, r_order = p, r_done = dn\<rparr>
            = Some (Inr \<lparr>r_v = vc, r_order = p, r_done = dn\<rparr>)"
      using True by (subst reorder_while.simps) simp
    moreover have "\<forall>k<n. dn ! k \<longrightarrow> vc ! k = v0 ! (p ! k)"
      using vd vcc True by metis
    ultimately show ?thesis using lv ld cl vu by blast
  next
    case False
    let ?j = "p ! c"
    let ?vc = "swap_at c ?j vc"
    let ?dn = "dn[?j := True]"
    have jn: "?j < n" using vp c by (simp add: perm_nth_less)
    have jnd: "\<not> dn ! ?j"
    proof
      assume "dn ! ?j"
      with jn False have "?j \<in> ?D - {i}" by simp
      then have "?j \<in> (\<lambda>k. p ! k) ` (?D - {c})" using fr by simp
      then obtain k where k: "k \<in> ?D - {c}" "?j = p ! k" by (rule imageE)
      then have "k < n" "k \<noteq> c" by simp_all
      with perm_inj[OF vp \<open>c < n\<close> \<open>k < n\<close> k(2)] show False by simp
    qed
    have jc: "?j \<noteq> c" using jnd dc by auto
    have D': "{k. k < n \<and> ?dn ! k} = insert ?j ?D"
      using jn ld by (auto simp: nth_list_update)
    have m: "card {k. k < n \<and> \<not> ?dn ! k} < card {k. k < n \<and> \<not> dn ! k}"
    proof (rule psubset_card_mono)
      show "finite {k. k < n \<and> \<not> dn ! k}" by simp
      show "{k. k < n \<and> \<not> ?dn ! k} \<subset> {k. k < n \<and> \<not> dn ! k}"
        using jn jnd ld by (auto simp: nth_list_update)
    qed
    have fr': "(\<lambda>k. p ! k) ` ({k. k < n \<and> ?dn ! k} - {?j}) = {k. k < n \<and> ?dn ! k} - {i}"
    proof -
      have "{k. k < n \<and> ?dn ! k} - {?j} = insert c (?D - {c})"
        unfolding D' using jnd jn c dc by auto
      then have "(\<lambda>k. p ! k) ` ({k. k < n \<and> ?dn ! k} - {?j}) = insert ?j ((\<lambda>k. p ! k) ` (?D - {c}))"
        by (metis image_insert)
      also have "\<dots> = insert ?j (?D - {i})" using fr by simp
      also have "\<dots> = {k. k < n \<and> ?dn ! k} - {i}" unfolding D' using False by auto
      finally show ?thesis .
    qed
    have vd': "\<forall>k<n. ?dn ! k \<and> k \<noteq> ?j \<longrightarrow> ?vc ! k = v0 ! (p ! k)"
      using vd vu lv ld c jn jnd jc by (auto simp: swap_at_def nth_list_update)
    have vcc': "?vc ! ?j = v0 ! i"
      using vcc lv jn by (simp add: swap_at_def)
    have vu': "\<forall>k<n. \<not> ?dn ! k \<longrightarrow> ?vc ! k = v0 ! k"
      using vu lv ld c dc jn jnd jc by (auto simp: swap_at_def nth_list_update)
    have "\<exists>v' dn'. reorder_while i ?j (p ! ?j) \<lparr>r_v = ?vc, r_order = p, r_done = ?dn\<rparr>
            = Some (Inr \<lparr>r_v = v', r_order = p, r_done = dn'\<rparr>)
          \<and> length v' = n \<and> length dn' = n
          \<and> (\<forall>k<n. ?dn ! k \<longrightarrow> dn' ! k)
          \<and> (\<lambda>k. p ! k) ` {k. k < n \<and> dn' ! k} = {k. k < n \<and> dn' ! k}
          \<and> (\<forall>k<n. dn' ! k \<longrightarrow> v' ! k = v0 ! (p ! k))
          \<and> (\<forall>k<n. \<not> dn' ! k \<longrightarrow> v' ! k = v0 ! k)"
    proof (rule less.hyps[OF m])
      show "length ?vc = n" using lv by (simp add: swap_at_def)
      show "length ?dn = n" using ld by simp
      show "?dn ! i" using di i jn ld by (simp add: nth_list_update)
      show "?j < n" by (rule jn)
      show "?dn ! ?j" using jn ld by simp
    qed (rule fr' vd' vcc' vu')+
    then obtain v' dn' where r: "reorder_while i ?j (p ! ?j) \<lparr>r_v = ?vc, r_order = p, r_done = ?dn\<rparr>
            = Some (Inr \<lparr>r_v = v', r_order = p, r_done = dn'\<rparr>)"
       and post: "length v' = n" "length dn' = n" "\<forall>k<n. ?dn ! k \<longrightarrow> dn' ! k"
          "(\<lambda>k. p ! k) ` {k. k < n \<and> dn' ! k} = {k. k < n \<and> dn' ! k}"
          "\<forall>k<n. dn' ! k \<longrightarrow> v' ! k = v0 ! (p ! k)"
          "\<forall>k<n. \<not> dn' ! k \<longrightarrow> v' ! k = v0 ! k"
      by blast
    have "reorder_while i c (p ! c) \<lparr>r_v = vc, r_order = p, r_done = dn\<rparr>
        = reorder_while i ?j (p ! ?j) \<lparr>r_v = ?vc, r_order = p, r_done = ?dn\<rparr>"
      using False jn c lv ld lp by (subst reorder_while.simps) simp
    moreover have "\<forall>k<n. dn ! k \<longrightarrow> dn' ! k"
    proof (intro allI impI)
      fix k assume "k < n" "dn ! k"
      then have "?dn ! k" using jn ld by (simp add: nth_list_update)
      with post(3) \<open>k < n\<close> show "dn' ! k" by simp
    qed
    ultimately show ?thesis using r post(1,2,4,5,6) by simp
  qed
qed

lemma reorder_for_gather:
  assumes vp: "valid_permutation n p"
    and lv: "length vc = n" and ld: "length dn = n" and "i \<le> n"
    and ad: "\<forall>k<i. dn ! k"
    and cl: "(\<lambda>k. p ! k) ` {k. k < n \<and> dn ! k} = {k. k < n \<and> dn ! k}"
    and vd: "\<forall>k<n. dn ! k \<longrightarrow> vc ! k = v0 ! (p ! k)"
    and vu: "\<forall>k<n. \<not> dn ! k \<longrightarrow> vc ! k = v0 ! k"
  shows "\<exists>v' dn'. reorder_for i \<lparr>r_v = vc, r_order = p, r_done = dn\<rparr>
            = Some (Inr \<lparr>r_v = v', r_order = p, r_done = dn'\<rparr>)
          \<and> length v' = n \<and> (\<forall>k<n. v' ! k = v0 ! (p ! k))"
  using lv ld \<open>i \<le> n\<close> ad cl vd vu
proof (induction "n - i" arbitrary: i vc dn rule: less_induct)
  case less
  note lv = less.prems(1) and ld = less.prems(2) and i = less.prems(3)
    and ad = less.prems(4) and cl = less.prems(5) and vd = less.prems(6)
    and vu = less.prems(7)
  have lp: "length p = n" using vp by (simp add: valid_permutation_def)
  let ?D = "{k. k < n \<and> dn ! k}"
  show ?case
  proof (cases "i < n")
    case False
    then have "i = n" using i by simp
    then have "\<forall>k<n. vc ! k = v0 ! (p ! k)" using ad vd by simp
    moreover have "reorder_for i \<lparr>r_v = vc, r_order = p, r_done = dn\<rparr>
        = Some (Inr \<lparr>r_v = vc, r_order = p, r_done = dn\<rparr>)"
      using False lv by (subst reorder_for.simps) simp
    ultimately show ?thesis using lv by blast
  next
    case True
    show ?thesis
    proof (cases "dn ! i")
      case dni: True
      have "\<forall>k<i + 1. dn ! k" using ad dni by (simp add: less_Suc_eq)
      then have "\<exists>v' dn'. reorder_for (i + 1) \<lparr>r_v = vc, r_order = p, r_done = dn\<rparr>
            = Some (Inr \<lparr>r_v = v', r_order = p, r_done = dn'\<rparr>)
          \<and> length v' = n \<and> (\<forall>k<n. v' ! k = v0 ! (p ! k))"
        using True lv ld cl vd vu by (intro less.hyps) simp_all
      moreover have "reorder_for i \<lparr>r_v = vc, r_order = p, r_done = dn\<rparr>
          = reorder_for (i + 1) \<lparr>r_v = vc, r_order = p, r_done = dn\<rparr>"
        using True dni lv ld by (subst reorder_for.simps) simp
      ultimately show ?thesis by simp
    next
      case dni: False
      let ?dn = "dn[i := True]"
      have D1: "{k. k < n \<and> ?dn ! k} = insert i ?D"
        using True ld by (auto simp: nth_list_update)
      have fr: "(\<lambda>k. p ! k) ` ({k. k < n \<and> ?dn ! k} - {i}) = {k. k < n \<and> ?dn ! k} - {i}"
      proof -
        have "{k. k < n \<and> ?dn ! k} - {i} = ?D" unfolding D1 using dni by auto
        then show ?thesis using cl by simp
      qed
      have "\<exists>v' dn'. reorder_while i i (p ! i) \<lparr>r_v = vc, r_order = p, r_done = ?dn\<rparr>
            = Some (Inr \<lparr>r_v = v', r_order = p, r_done = dn'\<rparr>)
          \<and> length v' = n \<and> length dn' = n
          \<and> (\<forall>k<n. ?dn ! k \<longrightarrow> dn' ! k)
          \<and> (\<lambda>k. p ! k) ` {k. k < n \<and> dn' ! k} = {k. k < n \<and> dn' ! k}
          \<and> (\<forall>k<n. dn' ! k \<longrightarrow> v' ! k = v0 ! (p ! k))
          \<and> (\<forall>k<n. \<not> dn' ! k \<longrightarrow> v' ! k = v0 ! k)"
      proof (rule reorder_while_gather[OF vp lv _ True _ True _ fr])
        show "length ?dn = n" using ld by simp
        show "?dn ! i" using True ld by simp
        then show "?dn ! i" .
        show "\<forall>k<n. ?dn ! k \<and> k \<noteq> i \<longrightarrow> vc ! k = v0 ! (p ! k)"
          using vd ld by (auto simp: nth_list_update)
        show "vc ! i = v0 ! i" using vu True dni by simp
        show "\<forall>k<n. \<not> ?dn ! k \<longrightarrow> vc ! k = v0 ! k"
          using vu ld True by (auto simp: nth_list_update)
      qed
      then obtain v1 dn1 where r: "reorder_while i i (p ! i) \<lparr>r_v = vc, r_order = p, r_done = ?dn\<rparr>
            = Some (Inr \<lparr>r_v = v1, r_order = p, r_done = dn1\<rparr>)"
        and post: "length v1 = n" "length dn1 = n" "\<forall>k<n. ?dn ! k \<longrightarrow> dn1 ! k"
          "(\<lambda>k. p ! k) ` {k. k < n \<and> dn1 ! k} = {k. k < n \<and> dn1 ! k}"
          "\<forall>k<n. dn1 ! k \<longrightarrow> v1 ! k = v0 ! (p ! k)"
          "\<forall>k<n. \<not> dn1 ! k \<longrightarrow> v1 ! k = v0 ! k"
        by blast
      have ad1: "\<forall>k<i + 1. dn1 ! k"
      proof (intro allI impI)
        fix k assume k: "k < i + 1"
        then have "k < n" using True by simp
        moreover have "?dn ! k" using k ad True ld by (cases "k = i") (simp_all add: nth_list_update)
        ultimately show "dn1 ! k" using post(3) by simp
      qed
      have "\<exists>v' dn'. reorder_for (i + 1) \<lparr>r_v = v1, r_order = p, r_done = dn1\<rparr>
            = Some (Inr \<lparr>r_v = v', r_order = p, r_done = dn'\<rparr>)
          \<and> length v' = n \<and> (\<forall>k<n. v' ! k = v0 ! (p ! k))"
        using True post ad1 by (intro less.hyps) simp_all
      moreover have "reorder_for i \<lparr>r_v = vc, r_order = p, r_done = dn\<rparr>
          = reorder_for (i + 1) \<lparr>r_v = v1, r_order = p, r_done = dn1\<rparr>"
        using True dni lv ld lp r by (subst reorder_for.simps) simp
      ultimately show ?thesis by simp
    qed
  qed
qed

lemma reorder_result:
  assumes vp: "valid_permutation (length v) p"
  shows "\<exists>dn'. reorder v p
           = Some (Inr \<lparr>r_v = map (\<lambda>k. v ! (p ! k)) [0..<length v], r_order = p, r_done = dn'\<rparr>)"
proof -
  let ?n = "length v"
  have "\<exists>v' dn'. reorder_for 0 \<lparr>r_v = v, r_order = p, r_done = replicate ?n False\<rparr>
            = Some (Inr \<lparr>r_v = v', r_order = p, r_done = dn'\<rparr>)
          \<and> length v' = ?n \<and> (\<forall>k<?n. v' ! k = v ! (p ! k))"
    by (rule reorder_for_gather[OF vp]) (simp_all cong: conj_cong)
  then obtain v' dn' where r: "reorder v p = Some (Inr \<lparr>r_v = v', r_order = p, r_done = dn'\<rparr>)"
    and l: "length v' = ?n" and g: "\<forall>k<?n. v' ! k = v ! (p ! k)"
    unfolding reorder_def by blast
  have "v' = map (\<lambda>k. v ! (p ! k)) [0..<?n]"
    using l g by (intro nth_equalityI) simp_all
  with r show ?thesis by blast
qed

section \<open>reorder_destructive scatters along the cycles\<close>

lemma walk_correct:
  assumes vp: "valid_permutation n p"
    and inv: "walk_inv n p v0 o0 s D0 N c vc oc"
    and rem: "rem = int n - 1 - int (card (D0 \<union> N))"
  shows "\<exists>N' c' vc' oc' rem'.
           reorder_destructive_walk s (int (p ! c)) (v0 ! c)
             \<lparr>d_v = vc, d_order = oc, d_remaining = rem\<rparr>
           = Some (Inr (v0 ! c', \<lparr>d_v = vc', d_order = oc', d_remaining = rem'\<rparr>))
         \<and> rem' = int n - 1 - int (card (D0 \<union> N'))
         \<and> walk_inv n p v0 o0 s D0 N' c' vc' oc' \<and> p ! c' = s"
  using inv rem
proof (induction "n - card N" arbitrary: N c vc oc rem rule: less_induct)
  case less
  note inv = less.prems(1) and rem = less.prems(2)
  have lv: "length vc = n" and lo: "length oc = n" and D0n: "D0 \<subseteq> {..<n}" and Nn: "N \<subseteq> {..<n}"
    and dj: "D0 \<inter> N = {}" and sN: "s \<in> N" and cN: "c \<in> N"
    and cl: "(\<lambda>k. p ! k) ` D0 = D0"
    and fr: "(\<lambda>k. p ! k) ` (N - {c}) = N - {s}"
    and rc: "\<forall>k\<in>N. \<exists>m. ((\<lambda>x. p ! x) ^^ m) k = c"
    and mk: "\<forall>k\<in>N. k \<noteq> s \<longrightarrow> oc ! k = - 1"
    and os: "oc ! s = int (p ! s)"
    and oD: "\<forall>k\<in>D0. oc ! k = o0 ! k"
    and vD: "\<forall>k\<in>D0. vc ! (p ! k) = v0 ! k"
    and vN: "\<forall>k\<in>N. k \<noteq> c \<longrightarrow> vc ! (p ! k) = v0 ! k"
    and un: "\<forall>k<n. k \<notin> D0 \<longrightarrow> k \<notin> N \<longrightarrow> vc ! k = v0 ! k \<and> oc ! k = int (p ! k)"
    by (insert inv, unfold walk_inv_def, (elim conjE, assumption)+)
  have cn: "c < n" using cN Nn by auto
  show ?case
  proof (cases "p ! c = s")
    case True
    have "reorder_destructive_walk s (int (p ! c)) (v0 ! c)
             \<lparr>d_v = vc, d_order = oc, d_remaining = rem\<rparr>
           = Some (Inr (v0 ! c, \<lparr>d_v = vc, d_order = oc, d_remaining = rem\<rparr>))"
      using True by (subst reorder_destructive_walk.simps) simp
    with inv rem True show ?thesis by blast
  next
    case False
    let ?d = "p ! c"
    let ?vc = "vc[?d := v0 ! c]"
    let ?oc = "oc[?d := - 1]"
    let ?N = "insert ?d N"
    have dn: "?d < n" using vp cn by (rule perm_nth_less)
    have dD0: "?d \<notin> D0"
    proof
      assume "?d \<in> D0"
      then have "?d \<in> (\<lambda>k. p ! k) ` D0" using cl by simp
      then obtain k where k: "k \<in> D0" "?d = p ! k" by (rule imageE)
      then have "k < n" using D0n by auto
      with perm_inj[OF vp cn this k(2)] k(1) cN dj show False by auto
    qed
    have dN: "?d \<notin> N"
    proof
      assume "?d \<in> N"
      with False have "?d \<in> N - {s}" by simp
      then have "?d \<in> (\<lambda>k. p ! k) ` (N - {c})" using fr by simp
      then obtain k where k: "k \<in> N - {c}" "?d = p ! k" by (rule imageE)
      then have "k < n" using Nn by auto
      with perm_inj[OF vp cn this k(2)] k(1) show False by simp
    qed
    have fin: "finite N" using Nn by (rule finite_subset) simp
    have cardN: "card N \<le> n" using Nn by (metis card_lessThan card_mono finite_lessThan)
    have cardN': "card ?N = Suc (card N)" using dN fin by simp
    have "card ?N \<le> n" 
    proof -
      have "?N \<subseteq> {..<n}" using dn Nn by simp
      then show ?thesis by (metis card_lessThan card_mono finite_lessThan)
    qed
    then have m: "n - card ?N < n - card N" using cardN' by simp
    have inv': "walk_inv n p v0 o0 s D0 ?N ?d ?vc ?oc"
      unfolding walk_inv_def
    proof (intro conjI)
      show "length ?vc = n" using lv by simp
      show "length ?oc = n" using lo by simp
      show "D0 \<subseteq> {..<n}" by (rule D0n)
      show "?N \<subseteq> {..<n}" using dn Nn by simp
      show "D0 \<inter> ?N = {}" using dj dD0 by simp
      show "s \<in> ?N" using sN by simp
      show "?d \<in> ?N" by simp
      show "(\<lambda>k. p ! k) ` D0 = D0" by (rule cl)
      show "(\<lambda>k. p ! k) ` (?N - {?d}) = ?N - {s}"
      proof -
        have "?N - {?d} = insert c (N - {c})" using dN cN by auto
        then have "(\<lambda>k. p ! k) ` (?N - {?d}) = insert ?d ((\<lambda>k. p ! k) ` (N - {c}))"
          by (metis image_insert)
        also have "\<dots> = insert ?d (N - {s})" using fr by simp
        also have "\<dots> = ?N - {s}" using False by auto
        finally show ?thesis .
      qed
      show "\<forall>k\<in>?N. \<exists>m. ((\<lambda>x. p ! x) ^^ m) k = ?d"
      proof
        fix k assume "k \<in> ?N"
        then consider "k = ?d" | "k \<in> N" by auto
        then show "\<exists>m. ((\<lambda>x. p ! x) ^^ m) k = ?d"
        proof cases
          case 1
          then have "((\<lambda>x. p ! x) ^^ 0) k = ?d" by simp
          then show ?thesis by blast
        next
          case 2
          with rc obtain m where "((\<lambda>x. p ! x) ^^ m) k = c" by blast
          then have "((\<lambda>x. p ! x) ^^ Suc m) k = ?d" by simp
          then show ?thesis by blast
        qed
      qed
      show "\<forall>k\<in>?N. k \<noteq> s \<longrightarrow> ?oc ! k = - 1"
        using mk dn lo by (auto simp: nth_list_update)
      show "?oc ! s = int (p ! s)" using os False by simp
      show "\<forall>k\<in>D0. ?oc ! k = o0 ! k"
      proof
        fix k assume k: "k \<in> D0"
        then have "k \<noteq> ?d" using dD0 by auto
        then show "?oc ! k = o0 ! k" using oD k by simp
      qed
      show "\<forall>k\<in>D0. ?vc ! (p ! k) = v0 ! k"
      proof
        fix k assume k: "k \<in> D0"
        then have "p ! k \<in> D0" using cl by blast
        then have "p ! k \<noteq> ?d" using dD0 by auto
        then show "?vc ! (p ! k) = v0 ! k" using vD k by simp
      qed
      show "\<forall>k\<in>?N. k \<noteq> ?d \<longrightarrow> ?vc ! (p ! k) = v0 ! k"
      proof (intro ballI impI)
        fix k assume k: "k \<in> ?N" "k \<noteq> ?d"
        then have kN: "k \<in> N" by simp
        then have kn: "k < n" using Nn by auto
        show "?vc ! (p ! k) = v0 ! k"
        proof (cases "k = c")
          case True
          then show ?thesis using dn lv by simp
        next
          case kc: False
          then have "p ! k \<noteq> ?d" using perm_inj[OF vp kn cn] by auto
          then show ?thesis using vN kN kc by simp
        qed
      qed
      show "\<forall>k<n. k \<notin> D0 \<longrightarrow> k \<notin> ?N \<longrightarrow> ?vc ! k = v0 ! k \<and> ?oc ! k = int (p ! k)"
        using un by simp
    qed
    have und: "vc ! ?d = v0 ! ?d" "oc ! ?d = int (p ! ?d)" using un dn dD0 dN by simp_all
    have cu: "card (D0 \<union> ?N) = Suc (card (D0 \<union> N))"
    proof -
      have "finite (D0 \<union> N)" using D0n Nn fin by (meson finite_UnI finite_lessThan finite_subset)
      moreover have "?d \<notin> D0 \<union> N" using dD0 dN by simp
      ultimately show ?thesis by simp
    qed
    have rem': "rem - 1 = int n - 1 - int (card (D0 \<union> ?N))" using rem cu by simp
    have "\<exists>N' c' vc' oc' rem'.
           reorder_destructive_walk s (int (p ! ?d)) (v0 ! ?d)
             \<lparr>d_v = ?vc, d_order = ?oc, d_remaining = rem - 1\<rparr>
           = Some (Inr (v0 ! c', \<lparr>d_v = vc', d_order = oc', d_remaining = rem'\<rparr>))
         \<and> rem' = int n - 1 - int (card (D0 \<union> N'))
         \<and> walk_inv n p v0 o0 s D0 N' c' vc' oc' \<and> p ! c' = s"
      by (rule less.hyps[OF m inv' rem'])
    moreover have "reorder_destructive_walk s (int (p ! c)) (v0 ! c)
             \<lparr>d_v = vc, d_order = oc, d_remaining = rem\<rparr>
        = reorder_destructive_walk s (int (p ! ?d)) (v0 ! ?d)
             \<lparr>d_v = ?vc, d_order = ?oc, d_remaining = rem - 1\<rparr>"
      using False dn lv lo und by (subst reorder_destructive_walk.simps) simp
    ultimately show ?thesis by simp
  qed
qed

lemma funpow_closed: "f ` A = A \<Longrightarrow> x \<in> A \<Longrightarrow> (f ^^ m) x \<in> A"
  by (induction m) auto

lemma scan_done:
  assumes vp: "valid_permutation n p"
    and inv: "scan_inv n p v0 s D vc oc"
    and cd: "int n - 1 - int (card D) \<le> 0"
  shows "(\<forall>k<n. vc ! (p ! k) = v0 ! k)
       \<and> (\<forall>k<n. oc ! k = (if cycle_least p k then int (p ! k) else - 1))"
proof -
  have Dn: "D \<subseteq> {..<n}" and cl: "(\<lambda>k. p ! k) ` D = D"
    and vD: "\<forall>k\<in>D. vc ! (p ! k) = v0 ! k"
    and un: "\<forall>k<n. k \<notin> D \<longrightarrow> vc ! k = v0 ! k \<and> oc ! k = int (p ! k)"
    and mk: "\<forall>k\<in>D. oc ! k = (if cycle_least p k then int (p ! k) else - 1)"
    by (insert inv, unfold scan_inv_def, (elim conjE, assumption)+)
  have fixed: "p ! k = k" if k: "k < n" "k \<notin> D" for k
  proof (rule ccontr)
    assume ne: "p ! k \<noteq> k"
    have pk: "p ! k < n" using vp k(1) by (rule perm_nth_less)
    have "p ! k \<notin> D"
    proof
      assume "p ! k \<in> D"
      then have "p ! k \<in> (\<lambda>k. p ! k) ` D" using cl by simp
      then obtain j where j: "j \<in> D" "p ! k = p ! j" by (rule imageE)
      then have "j < n" using Dn by auto
      with perm_inj[OF vp k(1) this j(2)] j(1) k(2) show False by simp
    qed
    then have "D \<subseteq> {..<n} - {k, p ! k}" using Dn k(2) by auto
    then have "card D \<le> card ({..<n} - {k, p ! k})" by (intro card_mono) simp_all
    also have "\<dots> = n - 2" using k(1) pk ne by (simp add: card_Diff_subset)
    finally show False using cd k(1) pk ne by simp
  qed
  have "vc ! (p ! k) = v0 ! k \<and> oc ! k = (if cycle_least p k then int (p ! k) else - 1)"
    if k: "k < n" for k
  proof (cases "k \<in> D")
    case True
    then show ?thesis using vD mk by simp
  next
    case False
    have pk: "p ! k = k" using k False by (rule fixed)
    have "((\<lambda>x. p ! x) ^^ m) k = k" for m by (induction m) (simp_all add: pk)
    then have "cycle_least p k" by (simp add: cycle_least_def)
    then show ?thesis using un k False pk by simp
  qed
  then show ?thesis by blast
qed

lemma scan_correct:
  assumes vp: "valid_permutation n p"
    and inv: "scan_inv n p v0 s D vc oc"
    and rem: "rem = int n - 1 - int (card D)"
  shows "\<exists>vc' oc' rem'.
           reorder_destructive_for s \<lparr>d_v = vc, d_order = oc, d_remaining = rem\<rparr>
           = Some (Inr \<lparr>d_v = vc', d_order = oc', d_remaining = rem'\<rparr>)
         \<and> length vc' = n \<and> length oc' = n
         \<and> (\<forall>k<n. vc' ! (p ! k) = v0 ! k)
         \<and> (\<forall>k<n. oc' ! k = (if cycle_least p k then int (p ! k) else - 1))"
  using inv rem
proof (induction "n - s" arbitrary: s D vc oc rem rule: less_induct)
  case less
  note inv = less.prems(1) and rem = less.prems(2)
  have lv: "length vc = n" and lo: "length oc = n" and Dn: "D \<subseteq> {..<n}"
    and bs: "\<forall>k<n. k < s \<longrightarrow> k \<in> D"
    and cl: "(\<lambda>k. p ! k) ` D = D"
    and vD: "\<forall>k\<in>D. vc ! (p ! k) = v0 ! k"
    and un: "\<forall>k<n. k \<notin> D \<longrightarrow> vc ! k = v0 ! k \<and> oc ! k = int (p ! k)"
    and mk: "\<forall>k\<in>D. oc ! k = (if cycle_least p k then int (p ! k) else - 1)"
    and ab: "\<forall>k\<in>D. s \<le> k \<longrightarrow> oc ! k = - 1"
    by (insert inv, unfold scan_inv_def, (elim conjE, assumption)+)
  show ?case
  proof (cases "rem > 0")
    case False
    then have "reorder_destructive_for s \<lparr>d_v = vc, d_order = oc, d_remaining = rem\<rparr>
        = Some (Inr \<lparr>d_v = vc, d_order = oc, d_remaining = rem\<rparr>)"
      by (subst reorder_destructive_for.simps) simp
    moreover from False rem have "int n - 1 - int (card D) \<le> 0" by simp
    note scan_done[OF vp inv this]
    ultimately show ?thesis using lv lo by blast
  next
    case True
    have sn: "s < n"
    proof (rule ccontr)
      assume "\<not> s < n"
      then have "{..<n} \<subseteq> D" using bs by auto
      then have "D = {..<n}" using Dn by auto
      then show False using True rem by simp
    qed
    show ?thesis
    proof (cases "oc ! s = - 1")
      case mark: True
      have sD: "s \<in> D" using un sn mark by force
      have inv': "scan_inv n p v0 (s + 1) D vc oc"
        unfolding scan_inv_def
      proof (intro conjI)
        show "\<forall>k<n. k < s + 1 \<longrightarrow> k \<in> D" using bs sD by (auto simp: less_Suc_eq)
        show "\<forall>k\<in>D. s + 1 \<le> k \<longrightarrow> oc ! k = - 1" using ab by simp
      qed (rule lv lo Dn cl vD un mk)+
      have "n - (s + 1) < n - s" using sn by simp
      note less.hyps[OF this inv' rem]
      moreover have "reorder_destructive_for s \<lparr>d_v = vc, d_order = oc, d_remaining = rem\<rparr>
          = reorder_destructive_for (s + 1) \<lparr>d_v = vc, d_order = oc, d_remaining = rem\<rparr>"
        using True sn lo mark by (subst reorder_destructive_for.simps) simp
      ultimately show ?thesis by simp
    next
      case fresh: False
      have sD: "s \<notin> D" using ab fresh by auto
      have winv: "walk_inv n p v0 oc s D {s} s vc oc"
        unfolding walk_inv_def
      proof (intro conjI)
        show "\<forall>k\<in>{s}. \<exists>m. ((\<lambda>x. p ! x) ^^ m) k = s"
        proof
          fix k assume "k \<in> {s}"
          then have "((\<lambda>x. p ! x) ^^ 0) k = s" by simp
          then show "\<exists>m. ((\<lambda>x. p ! x) ^^ m) k = s" by blast
        qed
        show "oc ! s = int (p ! s)" using un sn sD by simp
        show "\<forall>k<n. k \<notin> D \<longrightarrow> k \<notin> {s} \<longrightarrow> vc ! k = v0 ! k \<and> oc ! k = int (p ! k)"
          using un by simp
      qed (use lv lo Dn sn sD cl vD in simp_all)
      have cs: "card (D \<union> {s}) = Suc (card D)"
      proof -
        have "finite D" using Dn by (rule finite_subset) simp
        then show ?thesis using sD by simp
      qed
      have rem1: "rem - 1 = int n - 1 - int (card (D \<union> {s}))" using rem cs by simp
      have "\<exists>N' c' vc' oc' rem'.
           reorder_destructive_walk s (int (p ! s)) (v0 ! s)
             \<lparr>d_v = vc, d_order = oc, d_remaining = rem - 1\<rparr>
           = Some (Inr (v0 ! c', \<lparr>d_v = vc', d_order = oc', d_remaining = rem'\<rparr>))
         \<and> rem' = int n - 1 - int (card (D \<union> N'))
         \<and> walk_inv n p v0 oc s D N' c' vc' oc' \<and> p ! c' = s"
        by (rule walk_correct[OF vp winv rem1])
      then obtain N' c' vc' oc' rem' where
        w: "reorder_destructive_walk s (int (p ! s)) (v0 ! s)
             \<lparr>d_v = vc, d_order = oc, d_remaining = rem - 1\<rparr>
           = Some (Inr (v0 ! c', \<lparr>d_v = vc', d_order = oc', d_remaining = rem'\<rparr>))"
        and rem': "rem' = int n - 1 - int (card (D \<union> N'))"
        and winv': "walk_inv n p v0 oc s D N' c' vc' oc'" and pc': "p ! c' = s"
        by blast
      have lv': "length vc' = n" and lo': "length oc' = n" and Nn: "N' \<subseteq> {..<n}"
        and dj: "D \<inter> N' = {}" and sN: "s \<in> N'" and cN: "c' \<in> N'"
        and fr: "(\<lambda>k. p ! k) ` (N' - {c'}) = N' - {s}"
        and rc: "\<forall>k\<in>N'. \<exists>m. ((\<lambda>x. p ! x) ^^ m) k = c'"
        and mk': "\<forall>k\<in>N'. k \<noteq> s \<longrightarrow> oc' ! k = - 1"
        and os': "oc' ! s = int (p ! s)"
        and oD': "\<forall>k\<in>D. oc' ! k = oc ! k"
        and vD': "\<forall>k\<in>D. vc' ! (p ! k) = v0 ! k"
        and vN': "\<forall>k\<in>N'. k \<noteq> c' \<longrightarrow> vc' ! (p ! k) = v0 ! k"
        and un': "\<forall>k<n. k \<notin> D \<longrightarrow> k \<notin> N' \<longrightarrow> vc' ! k = v0 ! k \<and> oc' ! k = int (p ! k)"
        by (insert winv', unfold walk_inv_def, (elim conjE, assumption)+)
      let ?v = "vc'[s := v0 ! c']"
      let ?D = "D \<union> N'"
      have c'n: "c' < n" using cN Nn by auto
      have clN: "(\<lambda>k. p ! k) ` N' = N'"
      proof -
        have "N' = insert c' (N' - {c'})" using cN by auto
        then have "(\<lambda>k. p ! k) ` N' = insert (p ! c') ((\<lambda>k. p ! k) ` (N' - {c'}))"
          by (metis image_insert)
        also have "\<dots> = insert s (N' - {s})" using fr pc' by simp
        also have "\<dots> = N'" using sN by auto
        finally show ?thesis .
      qed
      have ge: "s \<le> k" if "k \<in> N'" for k
      proof (rule ccontr)
        assume "\<not> s \<le> k"
        then have "k < s" by simp
        moreover have "k < n" using that Nn by auto
        ultimately have "k \<in> D" using bs by simp
        with that dj show False by auto
      qed
      have least_s: "cycle_least p s"
        unfolding cycle_least_def
      proof
        fix m
        have "((\<lambda>x. p ! x) ^^ m) s \<in> N'" using clN sN by (rule funpow_closed)
        then show "s \<le> ((\<lambda>x. p ! x) ^^ m) s" by (rule ge)
      qed
      have not_least: "\<not> cycle_least p k" if k: "k \<in> N'" "k \<noteq> s" for k
      proof -
        from rc k(1) obtain m where "((\<lambda>x. p ! x) ^^ m) k = c'" by blast
        then have "((\<lambda>x. p ! x) ^^ Suc m) k = s" using pc' by simp
        moreover have "s < k" using ge[OF k(1)] k(2) by simp
        ultimately have "((\<lambda>x. p ! x) ^^ Suc m) k < k" by simp
        then show ?thesis unfolding cycle_least_def by (metis not_le)
      qed
      have inv': "scan_inv n p v0 (s + 1) ?D ?v oc'"
        unfolding scan_inv_def
      proof (intro conjI)
        show "length ?v = n" using lv' by simp
        show "length oc' = n" by (rule lo')
        show "?D \<subseteq> {..<n}" using Dn Nn by simp
        show "\<forall>k<n. k < s + 1 \<longrightarrow> k \<in> ?D" using bs sN by (auto simp: less_Suc_eq)
        show "(\<lambda>k. p ! k) ` ?D = ?D" using cl clN by (simp add: image_Un)
        show "\<forall>k\<in>?D. ?v ! (p ! k) = v0 ! k"
        proof
          fix k assume k: "k \<in> ?D"
          then have kn: "k < n" using Dn Nn by auto
          show "?v ! (p ! k) = v0 ! k"
          proof (cases "k = c'")
            case True
            then show ?thesis using pc' sn lv' by simp
          next
            case False
            then have "p ! k \<noteq> s" using perm_inj[OF vp kn c'n] pc' by auto
            then show ?thesis using k False vD' vN' by auto
          qed
        qed
        show "\<forall>k<n. k \<notin> ?D \<longrightarrow> ?v ! k = v0 ! k \<and> oc' ! k = int (p ! k)"
        proof (intro allI impI)
          fix k assume k: "k < n" "k \<notin> ?D"
          then have "k \<noteq> s" using sN by auto
          then show "?v ! k = v0 ! k \<and> oc' ! k = int (p ! k)" using un' k by simp
        qed
        show "\<forall>k\<in>?D. oc' ! k = (if cycle_least p k then int (p ! k) else - 1)"
        proof
          fix k assume "k \<in> ?D"
          then consider "k \<in> D" | "k = s" | "k \<in> N'" "k \<noteq> s" by auto
          then show "oc' ! k = (if cycle_least p k then int (p ! k) else - 1)"
          proof cases
            case 1
            then show ?thesis using oD' mk by simp
          next
            case 2
            then show ?thesis using os' least_s by simp
          next
            case 3
            then show ?thesis using mk' not_least by simp
          qed
        qed
        show "\<forall>k\<in>?D. s + 1 \<le> k \<longrightarrow> oc' ! k = - 1"
          using oD' ab mk' by auto
      qed
      have "n - (s + 1) < n - s" using sn by simp
      note less.hyps[OF this inv' rem']
      moreover have "reorder_destructive_for s \<lparr>d_v = vc, d_order = oc, d_remaining = rem\<rparr>
          = reorder_destructive_for (s + 1) \<lparr>d_v = ?v, d_order = oc', d_remaining = rem'\<rparr>"
      proof -
        have "oc ! s = int (p ! s)" "vc ! s = v0 ! s" using un sn sD by simp_all
        then show ?thesis
          using True sn lo lv fresh w
          by (subst reorder_destructive_for.simps) simp
      qed
      ultimately show ?thesis by simp
    qed
  qed
qed

lemma reorder_destructive_result:
  assumes vp: "valid_permutation (length v) p"
  shows "\<exists>vc' oc' rem'.
           reorder_destructive (map int p) v
           = Some (Inr \<lparr>d_v = vc', d_order = oc', d_remaining = rem'\<rparr>)
         \<and> length vc' = length v \<and> length oc' = length v
         \<and> (\<forall>k<length v. vc' ! (p ! k) = v ! k)
         \<and> (\<forall>k<length v. oc' ! k = (if cycle_least p k then int (p ! k) else - 1))"
proof -
  have lp: "length p = length v" using vp by (simp add: valid_permutation_def)
  have inv: "scan_inv (length v) p v 0 {} v (map int p)"
    unfolding scan_inv_def using lp by simp
  have "int (length (map int p)) - 1 = int (length v) - 1 - int (card ({}::nat set))"
    using lp by simp
  from scan_correct[OF vp inv this] show ?thesis
    unfolding reorder_destructive_def .
qed

section \<open>The applicators\<close>

lemma gather_mset:
  assumes vp: "valid_permutation (length v) p"
  shows "mset (map (\<lambda>k. v ! (p ! k)) [0..<length v]) = mset v"
proof -
  have lp: "length p = length v" using vp by (simp add: valid_permutation_def)
  have "map (\<lambda>k. v ! (p ! k)) [0..<length v] = map (\<lambda>j. v ! j) p"
    using lp by (intro nth_equalityI) simp_all
  then have "mset (map (\<lambda>k. v ! (p ! k)) [0..<length v]) = image_mset (\<lambda>j. v ! j) (mset p)"
    by simp
  also have "\<dots> = image_mset (\<lambda>j. v ! j) (mset [0..<length v])"
    using perm_mset[OF vp] by simp
  also have "\<dots> = mset (map (\<lambda>j. v ! j) [0..<length v])" by simp
  also have "\<dots> = mset v" by (simp add: map_nth)
  finally show ?thesis .
qed

lemma scatter_mset:
  assumes vp: "valid_permutation (length v) p"
    and lw: "length w = length v"
    and sc: "\<forall>k<length v. w ! (p ! k) = v ! k"
  shows "mset w = mset v"
proof -
  have lp: "length p = length v" using vp by (simp add: valid_permutation_def)
  have "map (\<lambda>j. w ! j) p = v"
    using lp sc by (intro nth_equalityI) simp_all
  then have "mset v = image_mset (\<lambda>j. w ! j) (mset p)" by (metis mset_map)
  also have "\<dots> = image_mset (\<lambda>j. w ! j) (mset [0..<length v])"
    using perm_mset[OF vp] by simp
  also have "\<dots> = mset (map (\<lambda>j. w ! j) [0..<length w])" using lw by simp
  also have "\<dots> = mset w" by (simp add: map_nth)
  finally show ?thesis by simp
qed

text \<open>
  Claim C2. For a vector \<open>v\<close> and a permutation \<open>order\<close> of \<open>[0, v.size())\<close>, \<open>reorder\<close>
  returns, and afterwards position \<open>i\<close> of \<open>v\<close> holds what position \<open>order[i]\<close> held before
  the call; \<open>reorder([1,2,3,4], [2,0,3,1])\<close> leaves \<open>[3,1,4,2]\<close>.
\<close>
theorem reorder_gathers:
  "(valid_permutation (length v) order \<longrightarrow>
      (\<exists>st. reorder v order = Some (Inr st) \<and> length (r_v st) = length v
         \<and> (\<forall>i<length v. r_v st ! i = v ! (order ! i))))
   \<and> (\<exists>st. reorder [1, 2, 3, 4 :: int] [2, 0, 3, 1] = Some (Inr st) \<and> r_v st = [3, 1, 4, 2])"
proof (intro conjI impI)
  assume "valid_permutation (length v) order"
  from reorder_result[OF this]
  show "\<exists>st. reorder v order = Some (Inr st) \<and> length (r_v st) = length v
         \<and> (\<forall>i<length v. r_v st ! i = v ! (order ! i))"
    by auto
next
  have "valid_permutation (length [1, 2, 3, 4 :: int]) [2, 0, 3, 1]"
    by (simp add: valid_permutation_def)
  from reorder_result[OF this]
  show "\<exists>st. reorder [1, 2, 3, 4 :: int] [2, 0, 3, 1] = Some (Inr st) \<and> r_v st = [3, 1, 4, 2]"
    by (auto simp: upt_rec)
qed

theorem reorder_gathers_witness:
  "valid_permutation (length ''abc'') [1, 2, 0]
   \<and> (\<exists>st. reorder ''abc'' [1, 2, 0] = Some (Inr st) \<and> length (r_v st) = 3
         \<and> r_v st ! 0 = CHR ''b'' \<and> r_v st ! 1 = CHR ''c'' \<and> r_v st ! 2 = CHR ''a'')"
proof -
  have h: "valid_permutation (length ''abc'') [1, 2, 0]"
    by (simp add: valid_permutation_def)
  from reorder_gathers[of "''abc''" "[1, 2, 0]"] h
  obtain st where "reorder ''abc'' [1, 2, 0] = Some (Inr st)" "length (r_v st) = 3"
    "\<forall>i<3. r_v st ! i = ''abc'' ! ([1, 2, 0] ! i)"
    by auto
  moreover from this(3) have "r_v st ! 0 = CHR ''b''" "r_v st ! 1 = CHR ''c''" "r_v st ! 2 = CHR ''a''"
    by simp_all
  ultimately show ?thesis using h by blast
qed

text \<open>
  Claim C6. For a permutation \<open>order\<close> of \<open>[0, v.size())\<close>, the vector \<open>order\<close> after
  \<open>reorder(v, order)\<close> is the vector \<open>order\<close> before the call.
\<close>
theorem reorder_keeps_order:
  assumes "valid_permutation (length v) order"
  shows "\<exists>st. reorder v order = Some (Inr st) \<and> r_order st = order"
  using reorder_result[OF assms] by auto

theorem reorder_keeps_order_witness:
  "valid_permutation (length ''abc'') [1, 2, 0]
   \<and> (\<exists>st. reorder ''abc'' [1, 2, 0] = Some (Inr st) \<and> r_order st = [1, 2, 0])"
proof -
  have h: "valid_permutation (length ''abc'') [1, 2, 0]"
    by (simp add: valid_permutation_def)
  show ?thesis using h reorder_keeps_order[OF h] by simp
qed

text \<open>
  Claim C10. For a permutation \<open>order\<close> of \<open>[0, v.size())\<close>, \<open>reorder_destructive\<close> returns,
  and afterwards position \<open>order[i]\<close> of \<open>v\<close> holds what position \<open>i\<close> held before the call:
  each element is sent to the destination named at its own index.
\<close>
theorem reorder_destructive_scatters:
  assumes "valid_permutation (length v) order"
  shows "\<exists>st. reorder_destructive (map int order) v = Some (Inr st)
           \<and> length (d_v st) = length v
           \<and> (\<forall>i<length v. d_v st ! (order ! i) = v ! i)"
  using reorder_destructive_result[OF assms] by auto

theorem reorder_destructive_scatters_witness:
  "valid_permutation (length ''abc'') [1, 2, 0]
   \<and> (\<exists>st. reorder_destructive (map int [1, 2, 0]) ''abc'' = Some (Inr st)
         \<and> d_v st ! 1 = CHR ''a'' \<and> d_v st ! 2 = CHR ''b'' \<and> d_v st ! 0 = CHR ''c'')"
proof -
  have h: "valid_permutation (length ''abc'') [1, 2, 0]"
    by (simp add: valid_permutation_def)
  from reorder_destructive_scatters[OF h]
  obtain st where "reorder_destructive (map int [1, 2, 0]) ''abc'' = Some (Inr st)"
    "\<forall>i<3. d_v st ! ([1, 2, 0] ! i) = ''abc'' ! i"
    by auto
  moreover from this(2)[rule_format, of 0] this(2)[rule_format, of 1] this(2)[rule_format, of 2]
  have "d_v st ! 1 = CHR ''a''" "d_v st ! 2 = CHR ''b''" "d_v st ! 0 = CHR ''c''"
    by simp_all
  ultimately show ?thesis using h by blast
qed

text \<open>
  Claim C9. For a permutation \<open>order\<close> of \<open>[0, v.size())\<close>, \<open>reorder\<close> and
  \<open>reorder_destructive\<close> both return: every loop reaches its exit and no access leaves
  the vectors.
\<close>
theorem applicators_terminate:
  assumes "valid_permutation (length v) order"
  shows "(\<exists>st. reorder v order = Some (Inr st))
       \<and> (\<exists>st. reorder_destructive (map int order) v = Some (Inr st))"
  using reorder_result[OF assms] reorder_destructive_result[OF assms] by auto

theorem applicators_terminate_witness:
  "valid_permutation (length ''abc'') [1, 2, 0]
   \<and> (\<exists>st. reorder ''abc'' [1, 2, 0] = Some (Inr st))
   \<and> (\<exists>st. reorder_destructive (map int [1, 2, 0]) ''abc'' = Some (Inr st))"
proof -
  have h: "valid_permutation (length ''abc'') [1, 2, 0]"
    by (simp add: valid_permutation_def)
  show ?thesis using h applicators_terminate[OF h] by simp
qed

text \<open>
  Claim C5. For a permutation \<open>order\<close> of \<open>[0, v.size())\<close>, \<open>reorder\<close> and
  \<open>reorder_destructive\<close> leave in \<open>v\<close> the multiset of values that was there before.
\<close>
theorem applicators_keep_multiset:
  assumes vp: "valid_permutation (length v) order"
  shows "(\<exists>st. reorder v order = Some (Inr st) \<and> mset (r_v st) = mset v)
       \<and> (\<exists>st. reorder_destructive (map int order) v = Some (Inr st) \<and> mset (d_v st) = mset v)"
proof
  from reorder_result[OF vp] gather_mset[OF vp]
  show "\<exists>st. reorder v order = Some (Inr st) \<and> mset (r_v st) = mset v" by auto
next
  from reorder_destructive_result[OF vp]
  obtain vc' oc' rem' where r: "reorder_destructive (map int order) v
           = Some (Inr \<lparr>d_v = vc', d_order = oc', d_remaining = rem'\<rparr>)"
    and l: "length vc' = length v" and sc: "\<forall>k<length v. vc' ! (order ! k) = v ! k"
    by blast
  from scatter_mset[OF vp l sc] r
  show "\<exists>st. reorder_destructive (map int order) v = Some (Inr st) \<and> mset (d_v st) = mset v"
    by simp
qed

theorem applicators_keep_multiset_witness:
  "valid_permutation (length ''abc'') [1, 2, 0]
   \<and> (\<exists>st. reorder ''abc'' [1, 2, 0] = Some (Inr st) \<and> mset (r_v st) = mset ''abc'')
   \<and> (\<exists>st. reorder_destructive (map int [1, 2, 0]) ''abc'' = Some (Inr st)
         \<and> mset (d_v st) = mset ''abc'')"
proof -
  have h: "valid_permutation (length ''abc'') [1, 2, 0]"
    by (simp add: valid_permutation_def)
  show ?thesis using h applicators_keep_multiset[OF h] by simp
qed


text \<open>
  Claim C1 at \<open>v = [1,2,3,4]\<close> with the permutation \<open>[2,0,3,1]\<close>: \<open>reorder\<close> leaves
  \<open>[3,1,4,2]\<close>, as its header comment says, and \<open>reorder_destructive\<close>, which the header
  calls a variant of it, leaves \<open>[2,4,1,3]\<close>.
\<close>

theorem reorder_variants_differ:
  "valid_permutation (length [1, 2, 3, 4 :: int]) [2, 0, 3, 1]
   \<and> reorder [1, 2, 3, 4 :: int] [2, 0, 3, 1]
       = Some (Inr \<lparr>r_v = [3, 1, 4, 2], r_order = [2, 0, 3, 1],
                    r_done = [True, True, True, True]\<rparr>)
   \<and> reorder_destructive (map int [2, 0, 3, 1]) [1, 2, 3, 4 :: int]
       = Some (Inr \<lparr>d_v = [2, 4, 1, 3], d_order = [2, - 1, - 1, - 1], d_remaining = - 1\<rparr>)"
  by (simp add: valid_permutation_def reorder_def reorder_for.simps reorder_while.simps
      swap_at_def reorder_destructive_def reorder_destructive_for.simps
      reorder_destructive_walk.simps)

text \<open>
  How far the two applicators are apart: \<open>reorder_destructive\<close> applies the inverse of the
  permutation that \<open>reorder\<close> applies. For permutations \<open>p\<close> and \<open>q\<close> of \<open>[0, v.size())\<close>
  with \<open>q[p[i]] = i\<close> for every position \<open>i\<close>, \<open>reorder\<close> with \<open>p\<close> and
  \<open>reorder_destructive\<close> with \<open>q\<close> leave the same sequence.
\<close>

lemma reorder_destructive_inverts_reorder:
  assumes vp: "valid_permutation (length v) p"
    and vq: "valid_permutation (length v) q"
    and inv: "\<forall>i<length v. q ! (p ! i) = i"
  shows "\<exists>st st'. reorder v p = Some (Inr st)
           \<and> reorder_destructive (map int q) v = Some (Inr st')
           \<and> r_v st = d_v st'"
proof -
  from reorder_result[OF vp] obtain dn where
    r: "reorder v p = Some (Inr \<lparr>r_v = map (\<lambda>k. v ! (p ! k)) [0..<length v],
                                  r_order = p, r_done = dn\<rparr>)"
    by blast
  from reorder_destructive_result[OF vq] obtain w oc rm where
    d: "reorder_destructive (map int q) v = Some (Inr \<lparr>d_v = w, d_order = oc, d_remaining = rm\<rparr>)"
    and lw: "length w = length v" and sc: "\<forall>k<length v. w ! (q ! k) = v ! k"
    by blast
  have "map (\<lambda>k. v ! (p ! k)) [0..<length v] = w"
  proof (rule nth_equalityI)
    show "length (map (\<lambda>k. v ! (p ! k)) [0..<length v]) = length w" using lw by simp
  next
    fix i assume "i < length (map (\<lambda>k. v ! (p ! k)) [0..<length v])"
    then have i: "i < length v" by simp
    have pi: "p ! i < length v" using vp i by (rule perm_nth_less)
    have "w ! (q ! (p ! i)) = v ! (p ! i)" using sc pi by simp
    then have "w ! i = v ! (p ! i)" using inv i by simp
    then show "map (\<lambda>k. v ! (p ! k)) [0..<length v] ! i = w ! i" using i by simp
  qed
  with r d show ?thesis by simp
qed

lemma reorder_destructive_inverts_reorder_example:
  "valid_permutation (length ''abcd'') [2, 0, 3, 1]
   \<and> valid_permutation (length ''abcd'') [1, 3, 0, 2]
   \<and> [1, 3, 0, 2] ! ([2, 0, 3, 1] ! 0) = (0::nat) \<and> [1, 3, 0, 2] ! ([2, 0, 3, 1] ! 1) = (1::nat)
   \<and> [1, 3, 0, 2] ! ([2, 0, 3, 1] ! 2) = (2::nat) \<and> [1, 3, 0, 2] ! ([2, 0, 3, 1] ! 3) = (3::nat)
   \<and> (\<exists>st st'. reorder ''abcd'' [2, 0, 3, 1] = Some (Inr st)
           \<and> reorder_destructive (map int [1, 3, 0, 2]) ''abcd'' = Some (Inr st')
           \<and> r_v st = d_v st')"
proof -
  have h1: "valid_permutation (length ''abcd'') [2, 0, 3, 1]"
    and h2: "valid_permutation (length ''abcd'') [1, 3, 0, 2]"
    by (simp_all add: valid_permutation_def)
  have h3: "\<forall>i<length ''abcd''. [1, 3, 0, 2] ! ([2, 0, 3, 1] ! i) = i"
    by (auto simp: less_Suc_eq numeral_eq_Suc)
  show ?thesis using h1 h2 reorder_destructive_inverts_reorder[OF h1 h2 h3] by simp
qed

lemma cycle_least_0: "cycle_least p 0"
  by (simp add: cycle_least_def)

lemma cycle_least_fixed:
  assumes "p ! k = k"
  shows "cycle_least p k"
proof -
  have "((\<lambda>x. p ! x) ^^ m) k = k" for m by (induction m) (simp_all add: assms)
  then show ?thesis by (simp add: cycle_least_def)
qed

text \<open>
  Claim C4, as stated, fails: on the permutation \<open>[1,0]\<close> the order buffer is left as
  \<open>[1,-1]\<close>; position 0, where the scan entered the cycle, still holds the index 1.
\<close>

theorem reorder_destructive_keeps_cycle_entry:
  "valid_permutation (length ''ab'') [1, 0]
   \<and> reorder_destructive (map int [1, 0]) ''ab''
       = Some (Inr \<lparr>d_v = ''ba'', d_order = [1, - 1], d_remaining = - 1\<rparr>)"
  by (simp add: valid_permutation_def reorder_destructive_def reorder_destructive_for.simps
      reorder_destructive_walk.simps)

text \<open>
  Claim C4, amended. For a permutation \<open>order\<close> of \<open>[0, v.size())\<close>, after
  \<open>reorder_destructive\<close> every position of the order buffer that is not the least
  position of its cycle holds \<open>-1\<close>, and the least position of each cycle holds the index
  it held before the call.
\<close>

theorem reorder_destructive_consumes:
  assumes "valid_permutation (length v) order"
  shows "\<exists>st. reorder_destructive (map int order) v = Some (Inr st)
           \<and> length (d_order st) = length v
           \<and> (\<forall>k<length v. d_order st ! k
                 = (if cycle_least order k then int (order ! k) else - 1))"
  using reorder_destructive_result[OF assms] by auto

theorem reorder_destructive_consumes_witness:
  "valid_permutation (length ''ab'') [1, 0]
   \<and> (\<exists>st. reorder_destructive (map int [1, 0]) ''ab'' = Some (Inr st)
         \<and> d_order st = [1, - 1])"
proof -
  have h: "valid_permutation (length ''ab'') [1, 0]"
    by (simp add: valid_permutation_def)
  from reorder_destructive_consumes[OF h] obtain st where
    r: "reorder_destructive (map int [1, 0]) ''ab'' = Some (Inr st)"
    and l: "length (d_order st) = 2"
    and m: "\<forall>k<2. d_order st ! k = (if cycle_least [1, 0] k then int ([1, 0] ! k) else - 1)"
    by auto
  have c0: "cycle_least [1, 0] 0" by (rule cycle_least_0)
  have "((\<lambda>x. [1, 0 :: nat] ! x) ^^ 1) 1 < 1" by simp
  then have c1: "\<not> cycle_least [1, 0] 1"
    unfolding cycle_least_def by (metis not_le)
  have "d_order st ! 0 = 1" using m[rule_format, of 0] c0 by simp
  moreover have "d_order st ! 1 = - 1" using m[rule_format, of 1] c1 by simp
  ultimately have "d_order st = [1, - 1]"
    using l by (intro nth_equalityI) (auto simp: less_Suc_eq numeral_2_eq_2)
  with r h show ?thesis by blast
qed

section \<open>sort_indices\<close>

lemma insort_key_index_order:
  assumes "sorted_wrt (\<lambda>i j. f i < f j \<or> (f i = f j \<and> i < j)) ys"
    and "\<forall>y\<in>set ys. x < y"
  shows "sorted_wrt (\<lambda>i j. f i < f j \<or> (f i = f j \<and> i < j)) (insort_key f x ys)"
  using assms
proof (induction ys)
  case Nil
  then show ?case by simp
next
  case (Cons y ys)
  show ?case
  proof (cases "f x \<le> f y")
    case True
    have "f x < f z \<or> (f x = f z \<and> x < z)" if "z \<in> set (y # ys)" for z
    proof -
      have "f y \<le> f z" using that Cons.prems(1) by auto
      moreover have "x < z" using that Cons.prems(2) by auto
      ultimately show ?thesis using True by auto
    qed
    then show ?thesis using True Cons.prems(1) by simp
  next
    case False
    have "sorted_wrt (\<lambda>i j. f i < f j \<or> (f i = f j \<and> i < j)) (insort_key f x ys)"
      using Cons by simp
    moreover have "f y < f z \<or> (f y = f z \<and> y < z)" if "z \<in> set (insort_key f x ys)" for z
      using that False Cons.prems(1) by (auto simp: set_insort_key)
    ultimately show ?thesis using False by simp
  qed
qed

lemma sort_key_index_order:
  "sorted_wrt (<) xs \<Longrightarrow>
     sorted_wrt (\<lambda>i j. f i < f j \<or> (f i = f j \<and> i < j)) (sort_key f xs)"
proof (induction xs)
  case Nil
  then show ?case by simp
next
  case (Cons x xs)
  then have "\<forall>y\<in>set (sort_key f xs). x < y" by simp
  with Cons show ?case by (simp add: insort_key_index_order)
qed

lemma sort_indices_permutation: "valid_permutation (length keys) (sort_indices keys)"
  by (simp add: valid_permutation_def sort_indices_def list_all_iff)

text \<open>
  Claim C3. For every key sequence, \<open>sort_indices\<close> returns a permutation of
  \<open>[0, keys.size())\<close>; the keys read through it are in non-decreasing order; and of two
  positions \<open>a < b\<close> with equal keys, \<open>a\<close> comes before \<open>b\<close> in the returned sequence.
\<close>

theorem sort_indices_stable_sorted:
  "valid_permutation (length keys) (sort_indices keys)
   \<and> sorted (map (\<lambda>i. keys ! i) (sort_indices keys))
   \<and> (\<forall>a b. a < b \<and> b < length keys \<and> keys ! a = keys ! b \<longrightarrow>
         (\<exists>i j. i < j \<and> j < length keys
            \<and> sort_indices keys ! i = a \<and> sort_indices keys ! j = b))"
proof (intro conjI allI impI)
  show "valid_permutation (length keys) (sort_indices keys)"
    by (rule sort_indices_permutation)
  show "sorted (map (\<lambda>i. keys ! i) (sort_indices keys))"
    by (simp add: sort_indices_def)
next
  fix a b assume ab: "a < b \<and> b < length keys \<and> keys ! a = keys ! b"
  let ?idx = "sort_indices keys"
  let ?R = "\<lambda>i j. keys ! i < keys ! j \<or> (keys ! i = keys ! j \<and> i < j)"
  have len: "length ?idx = length keys" by (simp add: sort_indices_def)
  have srt: "sorted_wrt ?R ?idx"
    unfolding sort_indices_def by (rule sort_key_index_order) simp
  have "a \<in> set ?idx" "b \<in> set ?idx" using ab by (simp_all add: sort_indices_def)
  then obtain i j where i: "i < length ?idx" "?idx ! i = a" and j: "j < length ?idx" "?idx ! j = b"
    by (auto simp: in_set_conv_nth)
  have "i \<noteq> j" using i j ab by auto
  moreover have "\<not> j < i"
  proof
    assume "j < i"
    have "?R (?idx ! j) (?idx ! i)"
      using sorted_wrt_nth_less[of ?R ?idx j i] srt \<open>j < i\<close> i(1) by blast
    then show False using i j ab by auto
  qed
  ultimately have "i < j" by simp
  then show "\<exists>i j. i < j \<and> j < length keys \<and> ?idx ! i = a \<and> ?idx ! j = b"
    using i j len by auto
qed

theorem sort_indices_stable_sorted_witness:
  "(0::nat) < 2 \<and> 2 < length [2, 1, 2 :: int] \<and> [2, 1, 2 :: int] ! 0 = [2, 1, 2] ! 2
   \<and> (\<exists>i j. i < j \<and> j < length [2, 1, 2 :: int]
         \<and> sort_indices [2, 1, 2 :: int] ! i = 0 \<and> sort_indices [2, 1, 2 :: int] ! j = 2)"
proof -
  have h: "(0::nat) < 2 \<and> 2 < length [2, 1, 2 :: int] \<and> [2, 1, 2 :: int] ! 0 = [2, 1, 2] ! 2"
    by simp
  from sort_indices_stable_sorted[of "[2, 1, 2 :: int]"]
  have "\<forall>a b. a < b \<and> b < length [2, 1, 2 :: int] \<and> [2, 1, 2 :: int] ! a = [2, 1, 2] ! b \<longrightarrow>
         (\<exists>i j. i < j \<and> j < length [2, 1, 2 :: int]
            \<and> sort_indices [2, 1, 2 :: int] ! i = a \<and> sort_indices [2, 1, 2 :: int] ! j = b)"
    by (elim conjE)
  from this[rule_format, OF h] h show ?thesis by (intro conjI) simp_all
qed

lemma sort_indices_example: "sort_indices [5, 4, 3, 2, 0, 1 :: int] = [4, 5, 3, 2, 1, 0]"
  by (simp add: sort_indices_def upt_rec)

text \<open>
  The permutation that \<open>sort_indices\<close> returns for the keys \<open>[5,4,3,2,0,1]\<close>, applied to
  \<open>abcdef\<close>: \<open>reorder\<close> leaves the values in the order of their keys, \<open>efdcba\<close>, and
  \<open>reorder_destructive\<close> leaves \<open>fedcab\<close>, which is not in that order.
\<close>

lemma reorder_after_sort_indices:
  "reorder ''abcdef'' (sort_indices [5, 4, 3, 2, 0, 1 :: int])
     = Some (Inr \<lparr>r_v = ''efdcba'', r_order = [4, 5, 3, 2, 1, 0],
                  r_done = [True, True, True, True, True, True]\<rparr>)"
  by (simp add: sort_indices_example reorder_def reorder_for.simps reorder_while.simps
      swap_at_def)

lemma reorder_destructive_after_sort_indices:
  "reorder_destructive (map int (sort_indices [5, 4, 3, 2, 0, 1 :: int])) ''abcdef''
     = Some (Inr \<lparr>d_v = ''fedcab'', d_order = [4, - 1, 3, - 1, - 1, - 1],
                  d_remaining = - 1\<rparr>)"
  by (simp add: sort_indices_example reorder_destructive_def reorder_destructive_for.simps
      reorder_destructive_walk.simps)

section \<open>RemoveDuplicates\<close>

lemma remove_if_seen_positions:
  "remove_if_seen seen xs
     = map (\<lambda>i. xs ! i) (filter (\<lambda>i. xs ! i \<notin> seen \<union> set (take i xs)) [0..<length xs])"
proof (induction xs arbitrary: seen)
  case Nil
  then show ?case by simp
next
  case (Cons x xs)
  have up: "[0..<length (x # xs)] = 0 # map Suc [0..<length xs]"
    by (simp add: upt_conv_Cons map_Suc_upt del: upt_Suc)
  have tl: "map (\<lambda>i. (x # xs) ! i)
              (filter (\<lambda>i. (x # xs) ! i \<notin> seen \<union> set (take i (x # xs))) (map Suc [0..<length xs]))
          = map (\<lambda>i. xs ! i)
              (filter (\<lambda>i. xs ! i \<notin> insert x seen \<union> set (take i xs)) [0..<length xs])"
    by (simp add: filter_map comp_def conj_commute conj_left_commute)
  show ?case
  proof (cases "x \<in> seen")
    case True
    then have "insert x seen = seen" by auto
    with True Cons[of seen] tl show ?thesis unfolding up by simp
  next
    case False
    with Cons[of "insert x seen"] tl show ?thesis unfolding up by simp
  qed
qed

lemma set_remove_if_seen: "set (remove_if_seen seen xs) = set xs - seen"
  by (induction xs arbitrary: seen) auto

lemma distinct_remove_if_seen: "distinct (remove_if_seen seen xs)"
  by (induction xs arbitrary: seen) (auto simp: set_remove_if_seen)

lemma remove_if_seen_distinct:
  "distinct xs \<Longrightarrow> set xs \<inter> seen = {} \<Longrightarrow> remove_if_seen seen xs = xs"
  by (induction xs arbitrary: seen) auto

text \<open>
  Claim C8. \<open>RemoveDuplicates\<close> leaves in \<open>v\<close> exactly the elements at the positions whose
  value does not occur at an earlier position, in their order, and returns the length of
  what it leaves; a vector without repeats is left as it is with its own length returned;
  a second call changes nothing.
\<close>

theorem RemoveDuplicates_first_occurrences:
  "fst (RemoveDuplicates v)
     = map (\<lambda>i. v ! i) (filter (\<lambda>i. v ! i \<notin> set (take i v)) [0..<length v])
   \<and> snd (RemoveDuplicates v) = length (fst (RemoveDuplicates v))
   \<and> (distinct v \<longrightarrow> RemoveDuplicates v = (v, length v))
   \<and> RemoveDuplicates (fst (RemoveDuplicates v)) = RemoveDuplicates v"
proof (intro conjI impI)
  show "fst (RemoveDuplicates v)
     = map (\<lambda>i. v ! i) (filter (\<lambda>i. v ! i \<notin> set (take i v)) [0..<length v])"
    using remove_if_seen_positions[of "{}" v] by (simp add: RemoveDuplicates_def Let_def)
  show "snd (RemoveDuplicates v) = length (fst (RemoveDuplicates v))"
    by (simp add: RemoveDuplicates_def Let_def)
  show "RemoveDuplicates (fst (RemoveDuplicates v)) = RemoveDuplicates v"
    by (simp add: RemoveDuplicates_def Let_def remove_if_seen_distinct distinct_remove_if_seen)
next
  assume "distinct v"
  then show "RemoveDuplicates v = (v, length v)"
    by (simp add: RemoveDuplicates_def Let_def remove_if_seen_distinct)
qed

theorem RemoveDuplicates_first_occurrences_witness:
  "distinct [3, 1, 2 :: int] \<and> RemoveDuplicates [3, 1, 2 :: int] = ([3, 1, 2], 3)"
proof -
  have h: "distinct [3, 1, 2 :: int]" by simp
  from RemoveDuplicates_first_occurrences[of "[3, 1, 2 :: int]"] h
  show ?thesis by simp
qed

lemma RemoveDuplicates_example: "RemoveDuplicates [1, 2, 1, 3, 2 :: int] = ([1, 2, 3], 3)"
  by (simp add: RemoveDuplicates_def)

section \<open>remove_intersection\<close>

text \<open>
  What stays in \<open>a\<close> are the elements whose converted value occurs exactly once in \<open>a\<close> and
  \<open>b\<close> together, in their order; none of them occurs in \<open>b\<close>, and \<open>b\<close> is returned as
  given.
\<close>

lemma remove_intersection_keeps_once:
  "fst (remove_intersection to_int a b)
     = filter (\<lambda>k. count (mset (map to_int a) + mset (map to_int b)) (to_int k) = 1) a"
proof -
  have "(\<not> count (mset (map to_int a) + mset (map to_int b)) (to_int k) > 1)
          = (count (mset (map to_int a) + mset (map to_int b)) (to_int k) = 1)"
    if "k \<in> set a" for k
  proof -
    have "to_int k \<in> to_int ` set a" using that by (rule imageI)
    then have "0 < count (mset (map to_int a)) (to_int k)" by simp
    moreover have "count (mset (map to_int a) + mset (map to_int b)) (to_int k)
        = count (mset (map to_int a)) (to_int k) + count (mset (map to_int b)) (to_int k)"
      by simp
    ultimately show ?thesis by linarith
  qed
  then show ?thesis by (auto simp: remove_intersection_def Let_def intro: filter_cong)
qed

lemma remove_intersection_common: "set (fst (remove_intersection to_int a b)) \<inter> set b = {}"
proof -
  have "count (mset (map to_int a) + mset (map to_int b)) (to_int k) > 1"
    if "k \<in> set a" "k \<in> set b" for k
  proof -
    have "to_int k \<in> to_int ` set a" "to_int k \<in> to_int ` set b"
      using that by (simp_all add: imageI)
    then have "0 < count (mset (map to_int a)) (to_int k)"
      "0 < count (mset (map to_int b)) (to_int k)"
      by simp_all
    moreover have "count (mset (map to_int a) + mset (map to_int b)) (to_int k)
        = count (mset (map to_int a)) (to_int k) + count (mset (map to_int b)) (to_int k)"
      by simp
    ultimately show ?thesis by linarith
  qed
  then show ?thesis by (auto simp: remove_intersection_def Let_def)
qed

lemma remove_intersection_second: "snd (remove_intersection to_int a b) = b"
  by (simp add: remove_intersection_def Let_def)

lemma remove_intersection_example:
  "remove_intersection (\<lambda>k. k) [1, 2, 3, 4] [2, 4, 5] = ([1, 3], [2, 4, 5])"
  by (simp add: remove_intersection_def)

text \<open>
  With a 32-bit \<open>int\<close> and elements of a 64-bit type, 4294967297 is counted as 1: it is
  taken out of \<open>a\<close> because \<open>b\<close> holds 1.
\<close>

lemma remove_intersection_narrowing:
  "remove_intersection (\<lambda>k. (k + 2147483648) mod 4294967296 - 2147483648)
     [4294967297, 2] [1] = ([2], [1])"
  by (simp add: remove_intersection_def)

text \<open>
  Claim C7 at \<open>a = [1,1]\<close>, \<open>b = []\<close> of \<open>std::vector<int>\<close>: the value 1 occurs in \<open>a\<close>
  only, and both of its occurrences are taken out of \<open>a\<close>.
\<close>

theorem remove_intersection_drops_repeats:
  "remove_intersection (\<lambda>k. k) [1, 1] [] = ([], [])"
  by (simp add: remove_intersection_def)

end
